theory Spec2Isabelle
  imports Main
begin

section \<open>Data model of \<open>src/database/pool.ts\<close>\<close>

text \<open>
  A JavaScript \<open>number\<close> as the pool uses it: millisecond counts and sizes are integers;
  \<open>NaN\<close> is kept because it is one of the falsy numbers. An optional field
  (\<open>timeout?: number\<close>) is an \<open>option\<close>, \<open>None\<close> standing for \<open>undefined\<close>.
\<close>

datatype number = Num int | NaN

text \<open>JavaScript truthiness of \<open>number | undefined\<close>: \<open>undefined\<close>, \<open>0\<close> and \<open>NaN\<close> are falsy.\<close>

fun truthy :: "number option \<Rightarrow> bool" where
  "truthy None = False"
| "truthy (Some NaN) = False"
| "truthy (Some (Num n)) = (n \<noteq> 0)"

text \<open>\<open>a || d\<close> on \<open>number | undefined\<close> with a numeric default.\<close>

definition orDefault :: "number option \<Rightarrow> int \<Rightarrow> number option" where
  "orDefault a d = (if truthy a then a else Some (Num d))"

text \<open>\<open>x > y\<close> for an integer \<open>x\<close>: every comparison with \<open>NaN\<close> or \<open>undefined\<close> is false.\<close>

fun gt :: "int \<Rightarrow> number option \<Rightarrow> bool" where
  "gt x (Some (Num y)) = (x > y)"
| "gt x _ = False"

record ConnectionPoolConfig =
  size_c :: int
  databaseUrl :: string
  timeout :: "number option"
  idleTimeout :: "number option"

record PoolStatus =
  total_s :: nat
  active :: nat
  idle :: nat
  waiting :: nat

text \<open>
  A \<open>PrismaClient\<close> object is a natural number, its identity: \<open>createConnection\<close> makes a
  new object at every call. Dates are integers (milliseconds).
\<close>

record PoolConnection =
  client :: nat
  inUse :: bool
  lastUsed :: int
  createdAt :: int

text \<open>
  Function objects, compared by identity (\<open>===\<close>). The promise made by the \<open>p\<close>-th queued
  \<open>acquire()\<close> has its executor's own \<open>resolve\<close> and \<open>reject\<close> (\<open>PromiseResolve p\<close>,
  \<open>PromiseReject p\<close>); the arrow functions that \<open>acquire()\<close> stores in the wait queue
  (lines 100-107: clear the timer, then call the executor's function) are other objects:
  \<open>WaiterResolve p\<close>, \<open>WaiterReject p\<close>.
\<close>

datatype resolver = PromiseResolve nat | WaiterResolve nat
datatype rejecter = PromiseReject nat | WaiterReject nat

record waiter =
  resolve :: resolver
  reject :: rejecter
  timestamp :: int

datatype error =
    PoolTimeout \<comment> \<open>\<open>Error('Connection pool timeout')\<close>\<close>
  | PoolClosing \<comment> \<open>\<open>Error('Connection pool is closing')\<close>\<close>
  | ConnectFailed \<comment> \<open>what \<open>$connect()\<close> throws\<close>
  | DisconnectFailed \<comment> \<open>what \<open>$disconnect()\<close> throws\<close>
  | QueryFailed \<comment> \<open>what the caller's operation throws\<close>

datatype promise = Pending | Fulfilled nat | Rejected error

datatype console = Log string | Warn string | Err string

text \<open>
  The fields of the class, then the part of the JavaScript runtime that the class acts on:
  the promises made by queued \<open>acquire()\<close> calls, the armed \<open>setTimeout\<close> timers (the timer of
  promise \<open>p\<close> is \<open>p\<close>), the number of \<open>setInterval\<close> timers started, the counters that name
  the next promise and the next client object, and the console output.
\<close>

record ConnectionPool =
  config :: ConnectionPoolConfig
  connections :: "PoolConnection list"
  waitQueue :: "waiter list"
  initialized :: bool
  promises :: "nat \<Rightarrow> promise"
  timers :: "nat list"
  intervals :: nat
  nextPromise :: nat
  nextClient :: nat
  consoleOut :: "console list"

text \<open>The constructor (lines 40-46).\<close>

definition constructor :: "ConnectionPoolConfig \<Rightarrow> ConnectionPool" where
  "constructor cfg =
     \<lparr> config = cfg\<lparr> timeout := orDefault (timeout cfg) 30000,
                        idleTimeout := orDefault (idleTimeout cfg) 60000 \<rparr>,
       connections = [],
       waitQueue = [],
       initialized = False,
       promises = (\<lambda>_. Pending),
       timers = [],
       intervals = 0,
       nextPromise = 0,
       nextClient = 0,
       consoleOut = [] \<rparr>"

definition getConfig :: "ConnectionPool \<Rightarrow> ConnectionPoolConfig" where
  "getConfig s = config s"

section \<open>Arrays, promises and timers\<close>

text \<open>\<open>Array.prototype.findIndex\<close>; \<open>None\<close> is the result \<open>-1\<close>.\<close>

fun findIndex :: "('a \<Rightarrow> bool) \<Rightarrow> 'a list \<Rightarrow> nat option" where
  "findIndex P [] = None"
| "findIndex P (x # xs) = (if P x then Some 0 else map_option Suc (findIndex P xs))"

text \<open>\<open>xs.splice(index, 1)\<close>.\<close>

definition splice :: "nat \<Rightarrow> 'a list \<Rightarrow> 'a list" where
  "splice index xs = take index xs @ drop (Suc index) xs"

text \<open>A promise is settled once: resolving or rejecting a settled promise does nothing.\<close>

definition settle :: "nat \<Rightarrow> promise \<Rightarrow> ConnectionPool \<Rightarrow> ConnectionPool" where
  "settle p v s = (if promises s p = Pending then s\<lparr>promises := (promises s)(p := v)\<rparr> else s)"

definition clearTimeout :: "nat \<Rightarrow> ConnectionPool \<Rightarrow> ConnectionPool" where
  "clearTimeout t s = s\<lparr>timers := removeAll t (timers s)\<rparr>"

text \<open>Calling a function object of the wait queue (lines 100-107).\<close>

fun callResolve :: "resolver \<Rightarrow> nat \<Rightarrow> ConnectionPool \<Rightarrow> ConnectionPool" where
  "callResolve (PromiseResolve p) c s = settle p (Fulfilled c) s"
| "callResolve (WaiterResolve p) c s = settle p (Fulfilled c) (clearTimeout p s)"

fun callReject :: "rejecter \<Rightarrow> error \<Rightarrow> ConnectionPool \<Rightarrow> ConnectionPool" where
  "callReject (PromiseReject p) e s = settle p (Rejected e) s"
| "callReject (WaiterReject p) e s = settle p (Rejected e) (clearTimeout p s)"

definition say :: "console \<Rightarrow> ConnectionPool \<Rightarrow> ConnectionPool" where
  "say m s = s\<lparr>consoleOut := consoleOut s @ [m]\<rparr>"

section \<open>acquire and release\<close>

text \<open>
  \<open>acquire()\<close> (lines 76-111) either returns the client of the first idle record, or makes
  a promise, arms its timer and queues a waiter; the caller then awaits the promise.
\<close>

datatype acquired = Immediate nat | Queued nat

definition acquire :: "int \<Rightarrow> ConnectionPool \<Rightarrow> acquired \<times> ConnectionPool" where
  "acquire now s =
     (case findIndex (\<lambda>conn. \<not> inUse conn) (connections s) of
        Some i \<Rightarrow>
          (let connection = connections s ! i
           in (Immediate (client connection),
               s\<lparr>connections := (connections s)[i := connection\<lparr>inUse := True, lastUsed := now\<rparr>]\<rparr>))
      | None \<Rightarrow>
          (let p = nextPromise s
           in (Queued p,
               s\<lparr>promises := (promises s)(p := Pending),
                 nextPromise := Suc p,
                 timers := timers s @ [p],
                 waitQueue := waitQueue s @
                   [\<lparr>resolve = WaiterResolve p, reject = WaiterReject p, timestamp = now\<rparr>]\<rparr>)))"

text \<open>
  The \<open>setTimeout\<close> callback of the promise \<open>p\<close> (lines 88-97): it looks in the queue for the
  item whose \<open>resolve\<close> is the executor's \<open>resolve\<close>, removes it when found, and rejects.
\<close>

definition onTimeout :: "nat \<Rightarrow> ConnectionPool \<Rightarrow> ConnectionPool" where
  "onTimeout p s =
     callReject (PromiseReject p) PoolTimeout
       (case findIndex (\<lambda>item. resolve item = PromiseResolve p) (waitQueue s) of
          Some index \<Rightarrow> s\<lparr>waitQueue := splice index (waitQueue s)\<rparr>
        | None \<Rightarrow> s)"

text \<open>The runtime fires an armed timer once; a cleared timer never fires.\<close>

definition timerFires :: "nat \<Rightarrow> ConnectionPool \<Rightarrow> ConnectionPool" where
  "timerFires p s = (if p \<in> set (timers s) then onTimeout p (clearTimeout p s) else s)"

text \<open>\<open>release(client)\<close> (lines 116-135); \<open>find\<close> gives the first record with that client.\<close>

definition release :: "int \<Rightarrow> nat \<Rightarrow> ConnectionPool \<Rightarrow> ConnectionPool" where
  "release now c s =
     (case findIndex (\<lambda>conn. client conn = c) (connections s) of
        None \<Rightarrow> say (Warn ''Attempted to release unknown connection'') s
      | Some i \<Rightarrow>
          (let s1 = s\<lparr>connections :=
                       (connections s)[i := (connections s ! i)\<lparr>inUse := False, lastUsed := now\<rparr>]\<rparr>
           in case waitQueue s1 of
                [] \<Rightarrow> s1
              | waiter # rest \<Rightarrow>
                  callResolve (resolve waiter) c
                    (s1\<lparr>waitQueue := rest,
                        connections := (connections s1)[i := (connections s1 ! i)\<lparr>inUse := True\<rparr>]\<rparr>)))"

section \<open>Creating and removing connections\<close>

text \<open>
  The database is a parameter: \<open>connects c\<close> says whether \<open>$connect()\<close> of the client \<open>c\<close>
  succeeds, \<open>disconnects c\<close> whether \<open>$disconnect()\<close> does. A stateful operation that can
  throw returns the error it throws, if any, with the state it leaves.
\<close>

definition createConnection ::
  "(nat \<Rightarrow> bool) \<Rightarrow> int \<Rightarrow> ConnectionPool \<Rightarrow> error option \<times> ConnectionPool" where
  "createConnection connects now s =
     (let c = nextClient s; s1 = s\<lparr>nextClient := Suc c\<rparr>
      in if connects c
         then (None, s1\<lparr>connections := connections s1 @
                 [\<lparr>client = c, inUse = False, lastUsed = now, createdAt = now\<rparr>]\<rparr>)
         else (Some ConnectFailed, say (Err ''Failed to create connection:'') s1))"

text \<open>\<open>for (let i = 0; i < n; i++) await this.createConnection()\<close>, left at the first throw.\<close>

fun createConnections ::
  "(nat \<Rightarrow> bool) \<Rightarrow> int \<Rightarrow> nat \<Rightarrow> ConnectionPool \<Rightarrow> error option \<times> ConnectionPool" where
  "createConnections connects now 0 s = (None, s)"
| "createConnections connects now (Suc n) s =
     (case createConnection connects now s of
        (Some e, s1) \<Rightarrow> (Some e, s1)
      | (None, s1) \<Rightarrow> createConnections connects now n s1)"

text \<open>\<open>initialize()\<close> (lines 51-71); \<open>startIdleConnectionCleanup\<close> starts one more interval.\<close>

definition initialize ::
  "(nat \<Rightarrow> bool) \<Rightarrow> int \<Rightarrow> ConnectionPool \<Rightarrow> error option \<times> ConnectionPool" where
  "initialize connects now s =
     (if initialized s then (None, s)
      else case createConnections connects now (nat (size_c (config s))) s of
             (Some e, s1) \<Rightarrow> (Some e, say (Err ''Failed to initialize connection pool:'') s1)
           | (None, s1) \<Rightarrow>
               (None, say (Log ''Connection pool initialized'')
                        (s1\<lparr>intervals := Suc (intervals s1), initialized := True\<rparr>)))"

text \<open>
  \<open>removeConnection(connection)\<close> (lines 179-190), from the point where \<open>$disconnect()\<close> has
  settled. The record object is named by its client: every record has a client of its
  own, so \<open>indexOf(connection)\<close> is the index of the record with that client.
\<close>

definition removeConnection :: "(nat \<Rightarrow> bool) \<Rightarrow> nat \<Rightarrow> ConnectionPool \<Rightarrow> ConnectionPool" where
  "removeConnection disconnects c s =
     (if disconnects c
      then (case findIndex (\<lambda>conn. client conn = c) (connections s) of
              Some index \<Rightarrow> s\<lparr>connections := splice index (connections s)\<rparr>
            | None \<Rightarrow> s)
      else say (Err ''Error removing connection:'') s)"

section \<open>Idle cleanup\<close>

text \<open>
  The \<open>setInterval\<close> callback (lines 196-212) is synchronous and does not await
  \<open>removeConnection\<close>, whose \<open>splice\<close> comes after its \<open>await\<close>: the whole loop runs on the
  array as it was, and \<open>cleanupTick\<close> is the list of records it calls \<open>removeConnection\<close>
  on. \<open>idleCleanup\<close> is one pass: the callback, then the removals it started, in order,
  with no other pool operation in between.
\<close>

definition cleanupTick :: "int \<Rightarrow> ConnectionPool \<Rightarrow> nat list" where
  "cleanupTick now s =
     (let idleTimeout' = orDefault (idleTimeout (config s)) 60000
      in map client
           (filter (\<lambda>connection.
                \<not> inUse connection \<and>
                gt (now - lastUsed connection) idleTimeout' \<and>
                int (length (connections s)) > size_c (config s) div 2)
              (connections s)))"

definition idleCleanup :: "(nat \<Rightarrow> bool) \<Rightarrow> int \<Rightarrow> ConnectionPool \<Rightarrow> ConnectionPool" where
  "idleCleanup disconnects now s =
     foldl (\<lambda>s' c. removeConnection disconnects c s') s (cleanupTick now s)"

section \<open>Status, close and resize\<close>

definition getStatus :: "ConnectionPool \<Rightarrow> PoolStatus" where
  "getStatus s =
     \<lparr> total_s = length (connections s),
       active = length (filter (\<lambda>conn. inUse conn) (connections s)),
       idle = length (filter (\<lambda>conn. \<not> inUse conn) (connections s)),
       waiting = length (waitQueue s) \<rparr>"

definition isInitialized :: "ConnectionPool \<Rightarrow> bool" where
  "isInitialized s = initialized s"

text \<open>
  \<open>close()\<close> (lines 233-250). \<open>Promise.all\<close> rejects when a \<open>$disconnect()\<close> rejects, and the
  \<open>await\<close> then throws out of \<open>close()\<close> before the last three statements.
\<close>

definition close :: "(nat \<Rightarrow> bool) \<Rightarrow> ConnectionPool \<Rightarrow> error option \<times> ConnectionPool" where
  "close disconnects s =
     (let s1 = foldl (\<lambda>s' waiter. callReject (reject waiter) PoolClosing s') s (waitQueue s);
          s2 = s1\<lparr>waitQueue := []\<rparr>
      in if list_all (\<lambda>conn. disconnects (client conn)) (connections s2)
         then (None, say (Log ''Connection pool closed'')
                       (s2\<lparr>connections := [], initialized := False\<rparr>))
         else (Some DisconnectFailed, s2))"

text \<open>
  The shrinking loop of \<open>resize\<close> (lines 283-288). \<open>for (const connection of
  this.connections)\<close> reads the array by index, \<open>i\<close> here, against its length at that
  moment, and \<open>removeConnection\<close>, awaited, has spliced the array before the next step.
\<close>

function shrink :: "(nat \<Rightarrow> bool) \<Rightarrow> nat \<Rightarrow> nat \<Rightarrow> nat \<Rightarrow> ConnectionPool \<Rightarrow> ConnectionPool" where
  "shrink disconnects toRemove i removed s =
     (if i < length (connections s)
      then (let connection = connections s ! i
            in if \<not> inUse connection \<and> removed < toRemove
               then shrink disconnects toRemove (Suc i) (Suc removed)
                      (removeConnection disconnects (client connection) s)
               else shrink disconnects toRemove (Suc i) removed s)
      else s)"
  by pat_completeness auto
termination
proof (relation "measure (\<lambda>(disconnects, toRemove, i, removed, s). length (connections s) - i)")
  show "wf (measure (\<lambda>(disconnects, toRemove, i, removed, s). length (connections s) - i))"
    by simp
next
  fix disconnects :: "nat \<Rightarrow> bool" and toRemove i removed :: nat and s :: ConnectionPool
    and connection :: PoolConnection
  assume "i < length (connections s)"
  moreover have "length (connections (removeConnection disconnects (client connection) s))
      \<le> length (connections s)"
    by (auto simp add: removeConnection_def splice_def say_def split: option.splits)
  ultimately show "((disconnects, toRemove, Suc i, Suc removed,
                removeConnection disconnects (client connection) s),
              (disconnects, toRemove, i, removed, s))
             \<in> measure (\<lambda>(disconnects, toRemove, i, removed, s). length (connections s) - i)"
    by simp
next
  fix disconnects :: "nat \<Rightarrow> bool" and toRemove i removed :: nat and s :: ConnectionPool
  assume "i < length (connections s)"
  then show "((disconnects, toRemove, Suc i, removed, s), (disconnects, toRemove, i, removed, s))
             \<in> measure (\<lambda>(disconnects, toRemove, i, removed, s). length (connections s) - i)"
    by simp
qed

declare shrink.simps [simp del]

text \<open>\<open>resize(newSize)\<close> (lines 269-293).\<close>

definition resize ::
  "(nat \<Rightarrow> bool) \<Rightarrow> (nat \<Rightarrow> bool) \<Rightarrow> int \<Rightarrow> int \<Rightarrow> ConnectionPool
     \<Rightarrow> error option \<times> ConnectionPool" where
  "resize connects disconnects now newSize s =
     (let currentSize = int (length (connections s));
          done = (\<lambda>s'. (None, say (Log ''Connection pool resized'')
                               (s'\<lparr>config := (config s')\<lparr>size_c := newSize\<rparr>\<rparr>)))
      in if newSize > currentSize
         then (case createConnections connects now (nat (newSize - currentSize)) s of
                 (Some e, s1) \<Rightarrow> (Some e, s1)
               | (None, s1) \<Rightarrow> done s1)
         else if newSize < currentSize
         then done (shrink disconnects (nat (currentSize - newSize)) 0 0 s)
         else done s)"

section \<open>execute and healthCheck\<close>






datatype health = healthy | degraded | unhealthy

record HealthCheck =
  status :: health
  details :: PoolStatus
  errors :: "string list option"



text \<open>The end of \<open>healthCheck\<close> (lines 322-341), from the outcome of \<open>execute\<close>.\<close>

definition report :: "PoolStatus \<Rightarrow> string list \<Rightarrow> error + unit \<Rightarrow> HealthCheck" where
  "report st errs r =
     (let errors' = (case r of Inl e \<Rightarrow> errs @ [''Connection test failed''] | Inr u \<Rightarrow> errs)
      in \<lparr> status = (if length errors' = 0 then healthy
                      else if length errors' \<le> 2 then degraded
                      else unhealthy),
           details = st,
           errors = (if length errors' > 0 then Some errors' else None) \<rparr>)"




section \<open>Callers and the handles they hold\<close>

text \<open>
  The pool keeps no record of who holds a handle; to speak of ownership, the callers are
  followed beside it. \<open>held\<close> lists the handles in the callers' hands, as pairs (caller,
  client): a caller gets one when its \<open>acquire()\<close> returns a client or when the promise it
  awaits is fulfilled, and gives it up when it calls \<open>release\<close> on it. \<open>awaiting\<close> pairs
  each promise of a queued \<open>acquire()\<close> with the caller that awaits it.
\<close>

record callers =
  pool :: ConnectionPool
  held :: "(nat \<times> nat) list"
  awaiting :: "(nat \<times> nat) list"

text \<open>The handles that a step of the pool delivers: one for each awaited promise it fulfils.\<close>

definition delivered ::
  "ConnectionPool \<Rightarrow> ConnectionPool \<Rightarrow> (nat \<times> nat) list \<Rightarrow> (nat \<times> nat) list" where
  "delivered s s' aw =
     concat (map (\<lambda>(p, caller).
                case (promises s p, promises s' p) of
                  (Pending, Fulfilled c) \<Rightarrow> [(caller, c)]
                | _ \<Rightarrow> []) aw)"

subsection \<open>Suspended calls\<close>

text \<open>
  \<open>initialize\<close>, \<open>resize\<close>, \<open>close\<close> and the removals of the idle cleanup are suspended at
  every \<open>await $connect()\<close> and \<open>await $disconnect()\<close>, and other calls and timers run in
  between. The pieces between two such points are steps of their own:
  \<open>createConnection\<close> from the end of its \<open>await\<close> (the client object, a local variable until
  then, is named when its record is pushed), \<open>removeConnection\<close> from the end of its
  \<open>await\<close>, and the statements of \<open>initialize\<close>, \<open>resize\<close> and \<open>close\<close> before and after their iterations.
\<close>

definition initializeFailed :: "ConnectionPool \<Rightarrow> ConnectionPool" where
  "initializeFailed s = say (Err ''Failed to initialize connection pool:'') s"

definition initializeDone :: "ConnectionPool \<Rightarrow> ConnectionPool" where
  "initializeDone s =
     say (Log ''Connection pool initialized'') (s\<lparr>intervals := Suc (intervals s), initialized := True\<rparr>)"

definition resizeDone :: "int \<Rightarrow> ConnectionPool \<Rightarrow> ConnectionPool" where
  "resizeDone newSize s =
     say (Log ''Connection pool resized'') (s\<lparr>config := (config s)\<lparr>size_c := newSize\<rparr>\<rparr>)"

definition closeBegin :: "ConnectionPool \<Rightarrow> ConnectionPool" where
  "closeBegin s =
     (foldl (\<lambda>s' waiter. callReject (reject waiter) PoolClosing s') s (waitQueue s))
       \<lparr>waitQueue := []\<rparr>"

definition closeDone :: "ConnectionPool \<Rightarrow> ConnectionPool" where
  "closeDone s = say (Log ''Connection pool closed'') (s\<lparr>connections := [], initialized := False\<rparr>)"

subsection \<open>Steps and runs\<close>

text \<open>
  A step of the pool is a whole call that runs with nothing in between, or a piece of a
  suspended call. A call carries the outcomes of the \<open>$connect()\<close> and \<open>$disconnect()\<close> it
  awaits, so that they may differ from one call to the next. The pieces are not bound to
  the order in which a call goes through them: every run of the program is a sequence of
  these steps, and not every sequence of these steps is a run of the program.
\<close>

datatype operation_call =
    Initialize int "nat \<Rightarrow> bool" \<comment> \<open>time, which clients connect\<close>
  | Acquire nat int \<comment> \<open>caller, time\<close>
  | Release nat int nat \<comment> \<open>caller, time, client\<close>
  | TimerFires nat
  | Cleanup int "nat \<Rightarrow> bool" \<comment> \<open>time, which clients disconnect\<close>
  | Resize int int "nat \<Rightarrow> bool" "nat \<Rightarrow> bool" \<comment> \<open>time, new size, connects, disconnects\<close>
  | Close "nat \<Rightarrow> bool"
  | Connected int bool \<comment> \<open>\<open>createConnection\<close> after \<open>await $connect()\<close>: time, success\<close>
  | Disconnected nat bool \<comment> \<open>\<open>removeConnection\<close> after \<open>await $disconnect()\<close>: client, success\<close>
  | InitializeFailed \<comment> \<open>the \<open>catch\<close> of \<open>initialize\<close> (line 68)\<close>
  | InitializeDone \<comment> \<open>lines 63-66\<close>
  | ResizeDone int \<comment> \<open>lines 291-292\<close>
  | CloseBegin \<comment> \<open>lines 235-243\<close>
  | CloseDone \<comment> \<open>lines 246-249\<close>

text \<open>The effect of a step on the pool; \<open>acquire\<close> also says what the caller gets.\<close>

fun perform :: "operation_call \<Rightarrow> ConnectionPool \<Rightarrow> ConnectionPool" where
  "perform (Initialize now connects) s = snd (initialize connects now s)"
| "perform (Acquire caller now) s = snd (acquire now s)"
| "perform (Release caller now c) s = release now c s"
| "perform (TimerFires p) s = timerFires p s"
| "perform (Cleanup now disconnects) s = idleCleanup disconnects now s"
| "perform (Resize now newSize connects disconnects) s =
     snd (resize connects disconnects now newSize s)"
| "perform (Close disconnects) s = snd (close disconnects s)"
| "perform (Connected now ok) s = snd (createConnection (\<lambda>c. ok) now s)"
| "perform (Disconnected c ok) s = removeConnection (\<lambda>c. ok) c s"
| "perform InitializeFailed s = initializeFailed s"
| "perform InitializeDone s = initializeDone s"
| "perform (ResizeDone newSize) s = resizeDone newSize s"
| "perform CloseBegin s = closeBegin s"
| "perform CloseDone s = closeDone s"

fun step :: "operation_call \<Rightarrow> callers \<Rightarrow> callers" where
  "step (Acquire caller now) w =
     (case acquire now (pool w) of
        (Immediate c, s') \<Rightarrow> w\<lparr>pool := s', held := held w @ [(caller, c)]\<rparr>
      | (Queued p, s') \<Rightarrow> w\<lparr>pool := s', awaiting := awaiting w @ [(p, caller)]\<rparr>)"
| "step (Release caller now c) w =
     (let s' = release now c (pool w)
      in w\<lparr>pool := s',
           held := remove1 (caller, c) (held w) @ delivered (pool w) s' (awaiting w)\<rparr>)"
| "step call w =
     (let s' = perform call (pool w)
      in w\<lparr>pool := s', held := held w @ delivered (pool w) s' (awaiting w)\<rparr>)"

fun run :: "operation_call list \<Rightarrow> callers \<Rightarrow> callers" where
  "run [] w = w"
| "run (call # calls) w = run calls (step call w)"

text \<open>
  A \<open>release\<close> is permitted unless it takes a handle out of another caller's hands: the
  caller holds the handle, or nobody holds it (a second \<open>release\<close>, a handle of no pool),
  or the pool does not track it.
\<close>

fun permitted :: "operation_call \<Rightarrow> callers \<Rightarrow> bool" where
  "permitted (Release caller now c) w =
     ((caller, c) \<in> set (held w) \<or> c \<notin> set (map snd (held w)) \<or>
      findIndex (\<lambda>conn. client conn = c) (connections (pool w)) = None)"
| "permitted call w = True"

fun disciplined :: "operation_call list \<Rightarrow> callers \<Rightarrow> bool" where
  "disciplined [] w = True"
| "disciplined (call # calls) w = (permitted call w \<and> disciplined calls (step call w))"

definition fresh :: "ConnectionPoolConfig \<Rightarrow> callers" where
  "fresh cfg = \<lparr> pool = constructor cfg, held = [], awaiting = [] \<rparr>"

text \<open>The holders of a client, and exclusive ownership of every handle.\<close>

definition holders :: "callers \<Rightarrow> nat \<Rightarrow> nat list" where
  "holders w c = map fst (filter (\<lambda>h. snd h = c) (held w))"

definition exclusive :: "callers \<Rightarrow> bool" where
  "exclusive w =
     (distinct (map snd (held w)) \<and>
      list_all (\<lambda>conn. inUse conn \<or> holders w (client conn) = []) (connections (pool w)))"

section \<open>Invariants of the callers' view\<close>

text \<open>
  A step of the pool is quiet when it hands out nothing: the records it leaves are old
  ones, unchanged, or new idle ones with new clients, and the promises it settles it
  rejects.
\<close>

definition quiet :: "ConnectionPool \<Rightarrow> ConnectionPool \<Rightarrow> bool" where
  "quiet s s' \<longleftrightarrow>
     (distinct (map client (connections s)) \<and>
        (\<forall>conn \<in> set (connections s). client conn < nextClient s) \<longrightarrow>
      distinct (map client (connections s')) \<and>
        (\<forall>conn \<in> set (connections s'). client conn < nextClient s')) \<and>
     (\<forall>conn \<in> set (connections s').
        conn \<in> set (connections s) \<or> (\<not> inUse conn \<and> nextClient s \<le> client conn)) \<and>
     nextClient s \<le> nextClient s' \<and>
     nextPromise s = nextPromise s' \<and>
     (\<forall>p. promises s' p = promises s p \<or> (\<exists>e. promises s' p = Rejected e))"

text \<open>
  What holds of the pool and its callers as long as every caller releases only what it
  holds: the records have clients of their own, below the counter of clients; no client
  is held twice; the client of an idle record is held by nobody; every promise is awaited
  by one caller.
\<close>

definition consistent :: "callers \<Rightarrow> bool" where
  "consistent w \<longleftrightarrow>
     distinct (map client (connections (pool w))) \<and>
     (\<forall>conn \<in> set (connections (pool w)). client conn < nextClient (pool w)) \<and>
     distinct (map snd (held w)) \<and>
     (\<forall>h \<in> set (held w). snd h < nextClient (pool w)) \<and>
     (\<forall>conn \<in> set (connections (pool w)). \<not> inUse conn \<longrightarrow> client conn \<notin> snd ` set (held w)) \<and>
     distinct (map fst (awaiting w)) \<and>
     (\<forall>a \<in> set (awaiting w). fst a < nextPromise (pool w))"

section \<open>Example pools\<close>

text \<open>
  \<open>started n\<close> is a pool of configured size \<open>n\<close> after a successful \<open>initialize()\<close> at time
  0; \<open>exhausted\<close> is \<open>started 1\<close> after one \<open>acquire()\<close>, which returns the client 0;
  \<open>oneWaiting\<close> is \<open>exhausted\<close> after a second \<open>acquire()\<close>, queued on the promise 0;
  \<open>handedOver\<close> is \<open>oneWaiting\<close> after \<open>release\<close> of the client 0, which passes it to the
  waiter. Every \<open>$connect()\<close> succeeds.
\<close>

definition example :: "int \<Rightarrow> ConnectionPoolConfig" where
  "example n = \<lparr> size_c = n, databaseUrl = ''postgresql://localhost/test'',
                 timeout = None, idleTimeout = None \<rparr>"

definition started :: "int \<Rightarrow> ConnectionPool" where
  "started n = snd (initialize (\<lambda>c. True) 0 (constructor (example n)))"

definition exhausted :: ConnectionPool where
  "exhausted = snd (acquire 1 (started 1))"

definition oneWaiting :: ConnectionPool where
  "oneWaiting = snd (acquire 2 exhausted)"

definition handedOver :: ConnectionPool where
  "handedOver = release 3 0 oneWaiting"

text \<open>
  \<open>twoWaiting\<close> is \<open>oneWaiting\<close> after a third \<open>acquire()\<close>, queued on the promise 1;
  \<open>firstTimedOut\<close> is \<open>twoWaiting\<close> after the timer of the promise 0 has expired; \<open>unstarted\<close> is
  a pool of configured size 1 before \<open>initialize()\<close>.
\<close>

definition twoWaiting :: ConnectionPool where
  "twoWaiting = snd (acquire 3 oneWaiting)"

definition firstTimedOut :: ConnectionPool where
  "firstTimedOut = timerFires 0 twoWaiting"


section \<open>Lemmas on arrays and on release\<close>

lemma findIndex_SomeD:
  "findIndex P xs = Some i \<Longrightarrow> i < length xs \<and> P (xs ! i)"
proof (induction xs arbitrary: i)
  case Nil
  then show ?case by simp
next
  case (Cons x xs)
  then show ?case by (auto split: if_splits)
qed

lemma findIndex_None_iff: "findIndex P xs = None \<longleftrightarrow> (\<forall>x \<in> set xs. \<not> P x)"
  by (induction xs) auto

lemma count_update:
  "i < length xs \<Longrightarrow>
   length (filter P (xs[i := y])) + (if P (xs ! i) then 1 else 0)
     = length (filter P xs) + (if P y then 1 else 0)"
proof (induction xs arbitrary: i)
  case Nil
  then show ?case by simp
next
  case (Cons x xs)
  then show ?case by (cases i) auto
qed

lemma release_handoff:
  assumes found: "findIndex (\<lambda>conn. client conn = c) (connections s) = Some i"
    and queue: "waitQueue s = w # rest"
  shows "release now c s =
     callResolve (resolve w) c
       (s\<lparr>waitQueue := rest,
          connections := (connections s)[i := (connections s ! i)\<lparr>lastUsed := now, inUse := True\<rparr>]\<rparr>)"
  using findIndex_SomeD [OF found] by (simp add: release_def found queue)

lemma release_idle:
  assumes found: "findIndex (\<lambda>conn. client conn = c) (connections s) = Some i"
    and queue: "waitQueue s = []"
  shows "release now c s =
       s\<lparr>connections := (connections s)[i := (connections s ! i)\<lparr>inUse := False, lastUsed := now\<rparr>]\<rparr>"
  by (simp add: release_def found queue)

lemma release_unknown:
  assumes "findIndex (\<lambda>conn. client conn = c) (connections s) = None"
  shows "release now c s = say (Warn ''Attempted to release unknown connection'') s"
  by (simp add: release_def assms)




lemma report_status:
  "status (report st errs r) =
     (let n = length errs + (case r of Inl e \<Rightarrow> 1 | Inr u \<Rightarrow> 0)
      in if n = 0 then healthy else if n \<le> 2 then degraded else unhealthy)"
  by (cases r) (simp_all add: report_def Let_def)

lemma report_errors:
  "errors (report st errs r) =
     (let es = errs @ (case r of Inl e \<Rightarrow> [''Connection test failed''] | Inr u \<Rightarrow> [])
      in if es = [] then None else Some es)"
  by (cases r) (simp_all add: report_def Let_def)



lemma acquire_Queued:
  assumes "acquire now s = (Queued p, s1)"
  shows "findIndex (\<lambda>conn. \<not> inUse conn) (connections s) = None \<and> p = nextPromise s"
  using assms by (auto simp add: acquire_def Let_def split: option.splits)



section \<open>Lemmas on quiet steps and on the invariant\<close>

lemma quiet_refl: "quiet s s"
  by (simp add: quiet_def)

lemma quiet_trans:
  assumes a: "quiet s s'" and b: "quiet s' s''"
  shows "quiet s s''"
  unfolding quiet_def
proof (intro conjI ballI allI impI)
  assume h: "distinct (map client (connections s)) \<and>
      (\<forall>conn \<in> set (connections s). client conn < nextClient s)"
  with a have "distinct (map client (connections s')) \<and>
      (\<forall>conn \<in> set (connections s'). client conn < nextClient s')"
    unfolding quiet_def by blast
  with b have c: "distinct (map client (connections s'')) \<and>
      (\<forall>conn \<in> set (connections s''). client conn < nextClient s'')"
    unfolding quiet_def by blast
  from c show "distinct (map client (connections s''))" by simp
  fix conn assume "conn \<in> set (connections s'')"
  with c show "client conn < nextClient s''" by simp
next
  fix conn assume "conn \<in> set (connections s'')"
  with b have "conn \<in> set (connections s') \<or> (\<not> inUse conn \<and> nextClient s' \<le> client conn)"
    unfolding quiet_def by blast
  moreover have "nextClient s \<le> nextClient s'" using a unfolding quiet_def by blast
  moreover have "conn \<in> set (connections s') \<Longrightarrow>
      conn \<in> set (connections s) \<or> (\<not> inUse conn \<and> nextClient s \<le> client conn)"
    using a unfolding quiet_def by blast
  ultimately show "conn \<in> set (connections s) \<or> (\<not> inUse conn \<and> nextClient s \<le> client conn)"
    by auto
next
  show "nextClient s \<le> nextClient s''" using a b unfolding quiet_def by auto
next
  show "nextPromise s = nextPromise s''" using a b unfolding quiet_def by auto
next
  fix p
  have "promises s' p = promises s p \<or> (\<exists>e. promises s' p = Rejected e)"
    using a unfolding quiet_def by blast
  moreover have "promises s'' p = promises s' p \<or> (\<exists>e. promises s'' p = Rejected e)"
    using b unfolding quiet_def by blast
  ultimately show "promises s'' p = promises s p \<or> (\<exists>e. promises s'' p = Rejected e)"
    by auto
qed

lemma quiet_same:
  "connections s' = connections s \<Longrightarrow> nextClient s' = nextClient s \<Longrightarrow>
   nextPromise s' = nextPromise s \<Longrightarrow> promises s' = promises s \<Longrightarrow> quiet s s'"
  by (simp add: quiet_def)

lemma quiet_say: "quiet s (say m s)"
  by (rule quiet_same) (simp_all add: say_def)

lemma quiet_reject: "quiet s (callReject r e s)"
  by (cases r) (auto simp add: quiet_def settle_def clearTimeout_def)

lemma quiet_createConnection: "quiet s (snd (createConnection connects now s))"
  by (auto simp add: quiet_def createConnection_def Let_def say_def)

lemma quiet_createConnections: "quiet s (snd (createConnections connects now n s))"
proof (induction n arbitrary: s)
  case 0
  show ?case by (simp add: quiet_refl)
next
  case (Suc n)
  obtain r s1 where c: "createConnection connects now s = (r, s1)" by (cases "createConnection connects now s")
  have q: "quiet s s1" using quiet_createConnection [of s connects now] c by simp
  show ?case
  proof (cases r)
    case None
    with c Suc.IH [of s1] q show ?thesis by (auto intro: quiet_trans)
  next
    case (Some e)
    with c q show ?thesis by simp
  qed
qed

lemma distinct_map_splice:
  assumes "distinct (map f xs)"
  shows "distinct (map f (splice i xs))"
proof -
  have "map f (splice i xs) = take i (map f xs) @ drop (Suc i) (map f xs)"
    by (simp add: splice_def take_map drop_map)
  moreover have "set (take i (map f xs)) \<inter> set (drop (Suc i) (map f xs)) = {}"
    using assms by (intro set_take_disj_set_drop_if_distinct) simp_all
  ultimately show ?thesis using assms by simp
qed

lemma set_splice: "set (splice i xs) \<subseteq> set xs"
  unfolding splice_def using set_take_subset [of i xs] set_drop_subset [of "Suc i" xs] by auto

lemma quiet_removeConnection: "quiet s (removeConnection disconnects c s)"
proof -
  have "quiet s (s\<lparr>connections := splice i (connections s)\<rparr>)" for i
    using set_splice [of i "connections s"] distinct_map_splice [of client "connections s" i]
    by (auto simp add: quiet_def)
  then show ?thesis
    by (simp add: removeConnection_def quiet_say quiet_refl split: option.splits)
qed


lemma quiet_fields:
  "quiet s (s\<lparr>waitQueue := q\<rparr>)" "quiet s (s\<lparr>timers := ts\<rparr>)"
  "quiet s (s\<lparr>config := cf\<rparr>)" "quiet s (s\<lparr>intervals := n, initialized := b\<rparr>)"
  by (simp_all add: quiet_def)

lemma quiet_shrink: "quiet s (shrink disconnects toRemove i removed s)"
proof (induction disconnects toRemove i removed s rule: shrink.induct)
  case (1 disconnects toRemove i removed s)
  show ?case
  proof (cases "i < length (connections s)")
    case False
    then show ?thesis by (simp add: shrink.simps [of _ _ i _ s] quiet_refl)
  next
    case True
    show ?thesis
    proof (cases "\<not> inUse (connections s ! i) \<and> removed < toRemove")
      case yes: True
      have "quiet (removeConnection disconnects (client (connections s ! i)) s)
          (shrink disconnects toRemove (Suc i) (Suc removed)
             (removeConnection disconnects (client (connections s ! i)) s))"
        using "1.IH"(1) [OF True refl yes] .
      with quiet_removeConnection [of s disconnects "client (connections s ! i)"]
      show ?thesis using True yes
        by (simp add: shrink.simps [of _ _ i _ s] Let_def) (blast intro: quiet_trans)
    next
      case no: False
      have "quiet s (shrink disconnects toRemove (Suc i) removed s)"
        using "1.IH"(2) [OF True refl no] .
      then show ?thesis using True no by (auto simp add: shrink.simps [of _ _ i _ s] Let_def)
    qed
  qed
qed

lemma quiet_initialize: "quiet s (snd (initialize connects now s))"
proof -
  obtain r s1 where c: "createConnections connects now (nat (size_c (config s))) s = (r, s1)"
    by (cases "createConnections connects now (nat (size_c (config s))) s")
  have q: "quiet s s1"
    using quiet_createConnections [of s connects now "nat (size_c (config s))"] c by simp
  have "quiet s1 (say m s1)" for m by (rule quiet_say)
  moreover have "quiet s1 (say m (s1\<lparr>intervals := n, initialized := b\<rparr>))" for m n b
    by (rule quiet_trans [OF quiet_fields(4) quiet_say])
  ultimately show ?thesis using q c
    by (cases r) (auto simp add: initialize_def quiet_refl intro: quiet_trans)
qed

lemma quiet_timerFires: "quiet s (timerFires p s)"
proof -
  have a: "quiet s (clearTimeout p s)" by (simp add: clearTimeout_def quiet_fields)
  have b: "quiet s0 (onTimeout p s0)" for s0
  proof (cases "findIndex (\<lambda>item. resolve item = PromiseResolve p) (waitQueue s0)")
    case None
    then show ?thesis unfolding onTimeout_def by (simp del: callReject.simps add: quiet_reject)
  next
    case (Some index)
    then show ?thesis unfolding onTimeout_def
      using quiet_trans [OF quiet_fields(1) quiet_reject]
      by (simp del: callReject.simps)
  qed
  show ?thesis
    using quiet_trans [OF a b] by (simp add: timerFires_def quiet_refl)
qed

lemma quiet_foldl:
  assumes "\<And>x s0. quiet s0 (f s0 x)"
  shows "quiet s (foldl f s xs)"
proof (induction xs arbitrary: s)
  case Nil
  show ?case by (simp add: quiet_refl)
next
  case (Cons x xs)
  show ?case using quiet_trans [OF assms [of s x] Cons.IH [of "f s x"]] by simp
qed

lemma quiet_idleCleanup: "quiet s (idleCleanup disconnects now s)"
  unfolding idleCleanup_def by (rule quiet_foldl) (rule quiet_removeConnection)

lemma quiet_done:
  "quiet s s1 \<Longrightarrow> quiet s (say m (s1\<lparr>config := cf\<rparr>))"
  by (blast intro: quiet_trans quiet_fields(3) quiet_say)

lemma quiet_resize: "quiet s (snd (resize connects disconnects now newSize s))"
proof -
  let ?n = "nat (newSize - int (length (connections s)))"
  obtain r s1 where c: "createConnections connects now ?n s = (r, s1)"
    by (cases "createConnections connects now ?n s")
  have q: "quiet s s1" using quiet_createConnections [of s connects now ?n] c by simp
  show ?thesis
    using c q quiet_shrink [of s disconnects] quiet_refl [of s]
    by (cases r) (auto simp add: resize_def Let_def intro!: quiet_done)
qed

lemma quiet_close: "quiet s (snd (close disconnects s))"
proof -
  let ?s1 = "foldl (\<lambda>s' waiter. callReject (reject waiter) PoolClosing s') s (waitQueue s)"
  have a: "quiet s ?s1" by (rule quiet_foldl) (rule quiet_reject)
  have b: "quiet ?s1 (?s1\<lparr>waitQueue := []\<rparr>)" by (rule quiet_fields)
  have c: "quiet s0 (say m (s0\<lparr>connections := [], initialized := False\<rparr>))" for s0 m
    by (simp add: quiet_def say_def)
  show ?thesis
    using quiet_trans [OF a b] quiet_trans [OF quiet_trans [OF a b] c]
    by (simp add: close_def Let_def)
qed

lemma quiet_pieces:
  "quiet s (initializeFailed s)" "quiet s (initializeDone s)" "quiet s (resizeDone n s)"
  "quiet s (closeBegin s)" "quiet s (closeDone s)"
proof -
  show "quiet s (initializeFailed s)" unfolding initializeFailed_def by (rule quiet_say)
  show "quiet s (initializeDone s)" unfolding initializeDone_def
    by (rule quiet_trans [OF quiet_fields(4) quiet_say])
  show "quiet s (resizeDone n s)" unfolding resizeDone_def
    by (rule quiet_done [OF quiet_refl])
  have "quiet s (foldl (\<lambda>s' waiter. callReject (reject waiter) PoolClosing s') s (waitQueue s))"
    by (rule quiet_foldl) (rule quiet_reject)
  then show "quiet s (closeBegin s)" unfolding closeBegin_def
    by (rule quiet_trans) (rule quiet_fields)
  show "quiet s (closeDone s)" by (simp add: quiet_def closeDone_def say_def)
qed

text \<open>The whole calls are made of the pieces.\<close>

lemma connections_closeBegin: "connections (closeBegin s) = connections s"
proof -
  have "connections (foldl (\<lambda>s' waiter. callReject (reject waiter) PoolClosing s') s0 ws)
      = connections s0" for s0 ws
  proof (induction ws arbitrary: s0)
    case Nil
    show ?case by simp
  next
    case (Cons a ws)
    have "connections (callReject (reject a) PoolClosing s0) = connections s0"
      by (cases "reject a") (simp_all add: settle_def clearTimeout_def)
    with Cons show ?case by simp
  qed
  then show ?thesis by (simp add: closeBegin_def)
qed

lemma calls_in_pieces:
  "close disconnects s =
     (if list_all (\<lambda>conn. disconnects (client conn)) (connections s)
      then (None, closeDone (closeBegin s)) else (Some DisconnectFailed, closeBegin s))"
  "initialize connects now s =
     (if initialized s then (None, s)
      else case createConnections connects now (nat (size_c (config s))) s of
             (Some e, s1) \<Rightarrow> (Some e, initializeFailed s1)
           | (None, s1) \<Rightarrow> (None, initializeDone s1))"
  "createConnections connects now (Suc n) s =
     (case createConnection (\<lambda>c. connects (nextClient s)) now s of
        (Some e, s1) \<Rightarrow> (Some e, s1)
      | (None, s1) \<Rightarrow> createConnections connects now n s1)"
  "int (length (connections s)) \<le> newSize \<Longrightarrow>
   resize connects disconnects now newSize s =
     (case createConnections connects now (nat (newSize - int (length (connections s)))) s of
        (Some e, s1) \<Rightarrow> (Some e, s1)
      | (None, s1) \<Rightarrow> (None, resizeDone newSize s1))"
  "newSize < int (length (connections s)) \<Longrightarrow>
   resize connects disconnects now newSize s =
     (None, resizeDone newSize
        (shrink disconnects (nat (int (length (connections s)) - newSize)) 0 0 s))"
proof -
  show "close disconnects s =
     (if list_all (\<lambda>conn. disconnects (client conn)) (connections s)
      then (None, closeDone (closeBegin s)) else (Some DisconnectFailed, closeBegin s))"
    using connections_closeBegin [of s]
    by (simp add: close_def closeBegin_def closeDone_def Let_def)
  show "initialize connects now s =
     (if initialized s then (None, s)
      else case createConnections connects now (nat (size_c (config s))) s of
             (Some e, s1) \<Rightarrow> (Some e, initializeFailed s1)
           | (None, s1) \<Rightarrow> (None, initializeDone s1))"
    by (simp add: initialize_def initializeFailed_def initializeDone_def
        split: prod.splits option.splits)
  show "createConnections connects now (Suc n) s =
     (case createConnection (\<lambda>c. connects (nextClient s)) now s of
        (Some e, s1) \<Rightarrow> (Some e, s1)
      | (None, s1) \<Rightarrow> createConnections connects now n s1)"
    by (simp add: createConnection_def Let_def)
  show "resize connects disconnects now newSize s =
     (case createConnections connects now (nat (newSize - int (length (connections s)))) s of
        (Some e, s1) \<Rightarrow> (Some e, s1)
      | (None, s1) \<Rightarrow> (None, resizeDone newSize s1))"
    if "int (length (connections s)) \<le> newSize"
  proof (cases "newSize > int (length (connections s))")
    case True
    then show ?thesis
      by (simp add: resize_def resizeDone_def Let_def split: prod.splits option.splits)
  next
    case False
    with that have "newSize = int (length (connections s))" by simp
    then show ?thesis by (simp add: resize_def resizeDone_def Let_def)
  qed
  show "resize connects disconnects now newSize s =
     (None, resizeDone newSize
        (shrink disconnects (nat (int (length (connections s)) - newSize)) 0 0 s))"
    if "newSize < int (length (connections s))"
    using that by (simp add: resize_def resizeDone_def Let_def)
qed

lemma delivered_none:
  assumes "\<And>p. p \<in> fst ` set aw \<Longrightarrow>
      promises s' p = promises s p \<or> (\<exists>e. promises s' p = Rejected e) \<or> promises s' p = Pending"
  shows "delivered s s' aw = []"
proof -
  have "(case (promises s p, promises s' p) of
            (Pending, Fulfilled c) \<Rightarrow> [(caller, c)]
          | _ \<Rightarrow> []) = []" if "(p, caller) \<in> set aw" for p caller
    using assms [of p] that by (force split: promise.splits)
  then show ?thesis by (auto simp add: delivered_def)
qed

lemma delivered_quiet: "quiet s s' \<Longrightarrow> delivered s s' aw = []"
  by (rule delivered_none) (auto simp add: quiet_def)

lemma delivered_fulfil:
  assumes "distinct (map fst aw)" and "promises s p = Pending"
    and "promises s' = (promises s)(p := Fulfilled c)"
  shows "map snd (delivered s s' aw) = [] \<or> map snd (delivered s s' aw) = [c]"
  using assms(1)
proof (induction aw)
  case Nil
  show ?case by (simp add: delivered_def)
next
  case (Cons a aw)
  obtain q caller where a: "a = (q, caller)" by (cases a)
  have split: "delivered s s' (a # aw) =
      (case (promises s q, promises s' q) of
            (Pending, Fulfilled c) \<Rightarrow> [(caller, c)]
          | _ \<Rightarrow> []) @ delivered s s' aw"
    by (simp add: delivered_def a)
  show ?case
  proof (cases "q = p")
    case True
    with Cons.prems a have "p \<notin> fst ` set aw" by auto
    then have "delivered s s' aw = []"
      by (intro delivered_none) (auto simp add: assms(3))
    then show ?thesis using True assms(2,3) by (simp add: split)
  next
    case False
    then have "promises s' q = promises s q" by (simp add: assms(3))
    then have "(case (promises s q, promises s' q) of
            (Pending, Fulfilled c) \<Rightarrow> [(caller, c)]
          | _ \<Rightarrow> []) = []"
      by (simp split: promise.splits)
    moreover from Cons.prems have "distinct (map fst aw)" by simp
    ultimately show ?thesis using Cons.IH by (simp add: split)
  qed
qed

lemma consistent_quiet:
  assumes c: "consistent w" and q: "quiet (pool w) s'"
  shows "consistent (w\<lparr>pool := s', held := held w @ delivered (pool w) s' (awaiting w)\<rparr>)"
proof -
  have d: "delivered (pool w) s' (awaiting w) = []" by (rule delivered_quiet [OF q])
  have old: "distinct (map client (connections (pool w))) \<and>
      (\<forall>conn \<in> set (connections (pool w)). client conn < nextClient (pool w))"
    using c unfolding consistent_def by blast
  with q have new: "distinct (map client (connections s')) \<and>
      (\<forall>conn \<in> set (connections s'). client conn < nextClient s')"
    unfolding quiet_def by blast
  have mono: "nextClient (pool w) \<le> nextClient s'" and same: "nextPromise (pool w) = nextPromise s'"
    using q unfolding quiet_def by blast+
  have origin: "conn \<in> set (connections (pool w)) \<or> (\<not> inUse conn \<and> nextClient (pool w) \<le> client conn)"
    if "conn \<in> set (connections s')" for conn
    using q that unfolding quiet_def by blast
  have bound: "snd h < nextClient (pool w)" if "h \<in> set (held w)" for h
    using c that unfolding consistent_def by blast
  have idle: "client conn \<notin> snd ` set (held w)"
    if "conn \<in> set (connections (pool w))" "\<not> inUse conn" for conn
    using c that unfolding consistent_def by blast
  have idle': "client conn \<notin> snd ` set (held w)"
    if "conn \<in> set (connections s')" "\<not> inUse conn" for conn
  proof (cases "conn \<in> set (connections (pool w))")
    case True
    then show ?thesis using idle that by blast
  next
    case False
    with origin [OF that(1)] have "nextClient (pool w) \<le> client conn" by blast
    with bound show ?thesis by force
  qed
  have aw: "distinct (map fst (awaiting w))" "\<forall>a \<in> set (awaiting w). fst a < nextPromise s'"
    and hd: "distinct (map snd (held w))"
    using c same unfolding consistent_def by auto
  have bound': "\<forall>h \<in> set (held w). snd h < nextClient s'"
    using bound mono by fastforce
  show ?thesis
    unfolding consistent_def using new hd bound' idle' aw by (simp add: d)
qed

lemma in_set_update:
  assumes "x \<in> set (xs[i := y])"
  shows "x = y \<or> (\<exists>j < length xs. j \<noteq> i \<and> x = xs ! j)"
proof -
  from assms obtain j where j: "j < length xs" "x = xs[i := y] ! j"
    by (auto simp add: set_conv_nth)
  then show ?thesis by (cases "j = i") auto
qed

lemma other_client:
  assumes "distinct (map client xs)" "i < length xs" "j < length xs" "j \<noteq> i"
  shows "client (xs ! j) \<noteq> client (xs ! i)"
proof -
  have "map client xs ! j \<noteq> map client xs ! i"
    using assms by (simp add: nth_eq_iff_index_eq del: nth_map)
  then show ?thesis using assms by simp
qed

lemma map_client_update:
  "i < length xs \<Longrightarrow> client y = client (xs ! i) \<Longrightarrow> map client (xs[i := y]) = map client xs"
  by (simp add: map_update list_update_same_conv)

lemma distinct_map_remove1: "distinct (map f xs) \<Longrightarrow> distinct (map f (remove1 x xs))"
proof (induction xs)
  case Nil
  then show ?case by simp
next
  case (Cons y ys)
  have "set (remove1 x ys) \<subseteq> set ys" by (rule set_remove1_subset)
  with Cons show ?case by auto
qed

lemma released_not_held:
  assumes "distinct (map snd hs)" "(caller, c) \<in> set hs"
  shows "c \<notin> snd ` set (remove1 (caller, c) hs)"
  using assms
proof (induction hs)
  case Nil
  then show ?case by simp
next
  case (Cons h hs)
  then show ?case by (cases "h = (caller, c)") (auto simp add: image_iff)
qed

lemma consistent_update:
  assumes c: "consistent w"
    and i: "i < length (connections (pool w))"
    and y: "client y = client (connections (pool w) ! i)"
    and conns: "connections s' = (connections (pool w))[i := y]"
    and counters: "nextClient s' = nextClient (pool w)" "nextPromise s' = nextPromise (pool w)"
    and dist: "distinct (map snd hs)"
    and origin: "\<And>h. h \<in> set hs \<Longrightarrow> h \<in> set (held w) \<or> snd h = client y"
    and idle: "\<not> inUse y \<Longrightarrow> client y \<notin> snd ` set hs"
  shows "consistent (w\<lparr>pool := s', held := hs\<rparr>)"
proof -
  let ?xs = "connections (pool w)"
  have d: "distinct (map client ?xs)"
    and b: "\<And>conn. conn \<in> set ?xs \<Longrightarrow> client conn < nextClient (pool w)"
    and hb: "\<And>h. h \<in> set (held w) \<Longrightarrow> snd h < nextClient (pool w)"
    and free: "\<And>conn. conn \<in> set ?xs \<Longrightarrow> \<not> inUse conn \<Longrightarrow> client conn \<notin> snd ` set (held w)"
    and aw: "distinct (map fst (awaiting w))" "\<forall>a \<in> set (awaiting w). fst a < nextPromise (pool w)"
    using c unfolding consistent_def by blast+
  have m: "map client (connections s') = map client ?xs"
    using i y by (simp add: conns map_client_update)
  have yb: "client y < nextClient (pool w)" using b [of "?xs ! i"] i y by simp
  have b': "client conn < nextClient s'" if "conn \<in> set (connections s')" for conn
  proof -
    from that have "client conn \<in> set (map client (connections s'))" by simp
    then have "client conn \<in> set (map client ?xs)" by (simp only: m)
    then show ?thesis using b counters by auto
  qed
  have hb': "snd h < nextClient s'" if "h \<in> set hs" for h
    using origin [OF that] hb [of h] yb counters by auto
  have free': "client conn \<notin> snd ` set hs"
    if mem: "conn \<in> set (connections s')" and nu: "\<not> inUse conn" for conn
  proof (cases "conn = y")
    case True
    with idle nu show ?thesis by simp
  next
    case False
    with in_set_update [of conn ?xs i y] mem conns
    obtain j where j: "j < length ?xs" "j \<noteq> i" "conn = ?xs ! j" by auto
    have ne: "client conn \<noteq> client y"
      using other_client [OF d i j(1,2)] j(3) y by simp
    have "conn \<in> set ?xs" using j by simp
    then have nh: "client conn \<notin> snd ` set (held w)" using free nu by blast
    show ?thesis
    proof
      assume "client conn \<in> snd ` set hs"
      then obtain h where h: "h \<in> set hs" "snd h = client conn" by auto
      with origin [OF h(1)] ne nh show False by force
    qed
  qed
  show ?thesis
    unfolding consistent_def using d m b' dist hb' free' aw counters by simp
qed

lemma consistent_acquire:
  assumes c: "consistent w"
  shows "consistent (step (Acquire caller now) w)"
proof (cases "findIndex (\<lambda>conn. \<not> inUse conn) (connections (pool w))")
  case None
  let ?p = "nextPromise (pool w)"
  have st: "step (Acquire caller now) w =
      w\<lparr>pool := snd (acquire now (pool w)), awaiting := awaiting w @ [(?p, caller)]\<rparr>"
    by (simp add: acquire_def None Let_def)
  have f: "connections (snd (acquire now (pool w))) = connections (pool w)"
     "nextClient (snd (acquire now (pool w))) = nextClient (pool w)"
     "nextPromise (snd (acquire now (pool w))) = Suc ?p"
    by (simp_all add: acquire_def None Let_def)
  from c show ?thesis
    unfolding st consistent_def by (simp add: f) force
next
  case (Some i)
  let ?xs = "connections (pool w)"
  let ?y = "(?xs ! i)\<lparr>inUse := True, lastUsed := now\<rparr>"
  let ?c = "client (?xs ! i)"
  have i: "i < length ?xs" and nu: "\<not> inUse (?xs ! i)"
    using findIndex_SomeD [OF Some] by simp_all
  have st: "step (Acquire caller now) w =
      w\<lparr>pool := snd (acquire now (pool w)), held := held w @ [(caller, ?c)]\<rparr>"
    by (simp add: acquire_def Some Let_def)
  have free: "?c \<notin> snd ` set (held w)"
    using c i nu unfolding consistent_def by (meson nth_mem)
  have dh: "distinct (map snd (held w))" using c unfolding consistent_def by blast
  show ?thesis
    unfolding st
  proof (rule consistent_update [OF c i, where y = ?y])
    show "client ?y = ?c" by simp
    show "connections (snd (acquire now (pool w))) = ?xs[i := ?y]"
      by (simp add: acquire_def Some Let_def)
    show "nextClient (snd (acquire now (pool w))) = nextClient (pool w)"
      "nextPromise (snd (acquire now (pool w))) = nextPromise (pool w)"
      by (simp_all add: acquire_def Some Let_def)
    show "distinct (map snd (held w @ [(caller, ?c)]))" using dh free by simp
    show "h \<in> set (held w) \<or> snd h = client ?y" if "h \<in> set (held w @ [(caller, ?c)])" for h
      using that by auto
    show "client ?y \<notin> snd ` set (held w @ [(caller, ?c)])" if "\<not> inUse ?y"
      using that by simp
  qed
qed

lemma consistent_release:
  assumes c: "consistent w" and ok: "permitted (Release caller now c0) w"
  shows "consistent (step (Release caller now c0) w)"
proof (cases "findIndex (\<lambda>conn. client conn = c0) (connections (pool w))")
  case None
  let ?s' = "release now c0 (pool w)"
  have r: "?s' = say (Warn ''Attempted to release unknown connection'') (pool w)"
    by (simp add: release_def None)
  have q: "quiet (pool w) ?s'" unfolding r by (rule quiet_say)
  have d: "delivered (pool w) ?s' (awaiting w) = []" by (rule delivered_quiet [OF q])
  have st: "step (Release caller now c0) w =
      w\<lparr>pool := ?s', held := remove1 (caller, c0) (held w)\<rparr>"
    by (simp add: Let_def d)
  have sub: "set (remove1 (caller, c0) (held w)) \<subseteq> set (held w)" by (rule set_remove1_subset)
  have dh: "distinct (map snd (remove1 (caller, c0) (held w)))"
    using c unfolding consistent_def by (blast intro: distinct_map_remove1)
  from c sub dh show ?thesis
    unfolding st consistent_def by (simp add: r say_def) blast
next
  case (Some i)
  let ?xs = "connections (pool w)"
  let ?s' = "release now c0 (pool w)"
  let ?hs = "remove1 (caller, c0) (held w)"
  have i: "i < length ?xs" and ci: "client (?xs ! i) = c0"
    using findIndex_SomeD [OF Some] by simp_all
  have st: "step (Release caller now c0) w =
      w\<lparr>pool := ?s', held := ?hs @ delivered (pool w) ?s' (awaiting w)\<rparr>"
    by (simp add: Let_def)
  have dh: "distinct (map snd (held w))" and aw: "distinct (map fst (awaiting w))"
    using c unfolding consistent_def by blast+
  have dh': "distinct (map snd ?hs)" using dh by (rule distinct_map_remove1)
  have sub: "set ?hs \<subseteq> set (held w)" by (rule set_remove1_subset)
  have "(caller, c0) \<in> set (held w) \<or> c0 \<notin> snd ` set (held w)"
    using ok Some by simp
  then have gone: "c0 \<notin> snd ` set ?hs"
  proof
    assume "(caller, c0) \<in> set (held w)"
    with dh show ?thesis by (rule released_not_held)
  next
    assume "c0 \<notin> snd ` set (held w)"
    with sub show ?thesis by blast
  qed
  show ?thesis
  proof (cases "waitQueue (pool w)")
    case Nil
    let ?y = "(?xs ! i)\<lparr>inUse := False, lastUsed := now\<rparr>"
    have r: "?s' = (pool w)\<lparr>connections := ?xs[i := ?y]\<rparr>"
      by (simp add: release_def Some Nil)
    have d: "delivered (pool w) ?s' (awaiting w) = []"
      by (rule delivered_none) (simp add: r)
    show ?thesis
      unfolding st d append_Nil2
    proof (rule consistent_update [OF c i, where y = ?y])
      show "client ?y = client (?xs ! i)" by simp
      show "connections ?s' = ?xs[i := ?y]" by (simp add: r)
      show "nextClient ?s' = nextClient (pool w)" "nextPromise ?s' = nextPromise (pool w)"
        by (simp_all add: r)
      show "distinct (map snd ?hs)" by (rule dh')
      show "h \<in> set (held w) \<or> snd h = client ?y" if "h \<in> set ?hs" for h
        using that sub by blast
      show "client ?y \<notin> snd ` set ?hs" using gone ci by simp
    qed
  next
    case (Cons waiter rest)
    let ?y = "(?xs ! i)\<lparr>lastUsed := now, inUse := True\<rparr>"
    let ?s1 = "(pool w)\<lparr>waitQueue := rest, connections := ?xs[i := ?y]\<rparr>"
    have r: "?s' = callResolve (resolve waiter) c0 ?s1"
      using i by (simp add: release_def Some Cons del: callResolve.simps)
    obtain p where p: "?s' = settle p (Fulfilled c0) ?s1 \<or>
        ?s' = settle p (Fulfilled c0) (clearTimeout p ?s1)"
      unfolding r by (cases "resolve waiter") auto
    have f: "connections ?s' = ?xs[i := ?y]" "nextClient ?s' = nextClient (pool w)"
      "nextPromise ?s' = nextPromise (pool w)"
      using p by (auto simp add: settle_def clearTimeout_def)
    have pr: "promises ?s' = promises (pool w) \<or>
        (promises (pool w) p = Pending \<and> promises ?s' = (promises (pool w))(p := Fulfilled c0))"
      using p by (auto simp add: settle_def clearTimeout_def)
    have d: "map snd (delivered (pool w) ?s' (awaiting w)) = [] \<or>
        map snd (delivered (pool w) ?s' (awaiting w)) = [c0]"
    proof -
      from pr show ?thesis
      proof
        assume "promises ?s' = promises (pool w)"
        then have "delivered (pool w) ?s' (awaiting w) = []"
          by (intro delivered_none) simp
        then show ?thesis by simp
      next
        assume "promises (pool w) p = Pending \<and> promises ?s' = (promises (pool w))(p := Fulfilled c0)"
        then show ?thesis using delivered_fulfil [OF aw, of "pool w" p ?s' c0] by blast
      qed
    qed
    show ?thesis
      unfolding st
    proof (rule consistent_update [OF c i, where y = ?y])
      show "client ?y = client (?xs ! i)" by simp
      show "connections ?s' = ?xs[i := ?y]" by (rule f)
      show "nextClient ?s' = nextClient (pool w)" "nextPromise ?s' = nextPromise (pool w)"
        by (rule f)+
      have gone': "c0 \<notin> set (map snd ?hs)" using gone by simp
      have "distinct (map snd (delivered (pool w) ?s' (awaiting w)))"
        using d by (elim disjE) simp_all
      moreover have "set (map snd ?hs) \<inter> set (map snd (delivered (pool w) ?s' (awaiting w))) = {}"
        using d gone' by (elim disjE) simp_all
      ultimately
      show "distinct (map snd (?hs @ delivered (pool w) ?s' (awaiting w)))"
        using dh' unfolding map_append distinct_append by blast
      show "h \<in> set (held w) \<or> snd h = client ?y"
        if "h \<in> set (?hs @ delivered (pool w) ?s' (awaiting w))" for h
      proof (cases "h \<in> set ?hs")
        case True
        then show ?thesis using sub by blast
      next
        case False
        with that have "snd h \<in> set (map snd (delivered (pool w) ?s' (awaiting w)))" by auto
        with d show ?thesis using ci by auto
      qed
      show "client ?y \<notin> snd ` set (?hs @ delivered (pool w) ?s' (awaiting w))" if "\<not> inUse ?y"
        using that by simp
    qed
  qed
qed

lemma consistent_step:
  assumes "consistent w" and "permitted call w"
  shows "consistent (step call w)"
proof -
  have quietly: "consistent (step call w)"
    if "step call w = (let s' = perform call (pool w)
          in w\<lparr>pool := s', held := held w @ delivered (pool w) s' (awaiting w)\<rparr>)"
      and "quiet (pool w) (perform call (pool w))"
    using consistent_quiet [OF assms(1) that(2)] that(1) by (simp add: Let_def)
  show ?thesis
  proof (cases call)
    case (Acquire caller now)
    then show ?thesis using assms consistent_acquire by simp
  next
    case (Release caller now c)
    then show ?thesis using assms consistent_release by simp
  next
    case (Initialize now connects)
    then show ?thesis by (intro quietly) (simp_all add: quiet_initialize)
  next
    case (TimerFires p)
    then show ?thesis by (intro quietly) (simp_all add: quiet_timerFires)
  next
    case (Cleanup now disconnects)
    then show ?thesis by (intro quietly) (simp_all add: quiet_idleCleanup)
  next
    case (Resize now newSize connects disconnects)
    then show ?thesis by (intro quietly) (simp_all add: quiet_resize)
  next
    case (Close disconnects)
    then show ?thesis by (intro quietly) (simp_all add: quiet_close)
  next
    case (Connected now ok)
    then show ?thesis by (intro quietly) (simp_all add: quiet_createConnection)
  next
    case (Disconnected c ok)
    then show ?thesis by (intro quietly) (simp_all add: quiet_removeConnection)
  next
    case InitializeFailed
    then show ?thesis by (intro quietly) (simp_all add: quiet_pieces)
  next
    case InitializeDone
    then show ?thesis by (intro quietly) (simp_all add: quiet_pieces)
  next
    case (ResizeDone newSize)
    then show ?thesis by (intro quietly) (simp_all add: quiet_pieces)
  next
    case CloseBegin
    then show ?thesis by (intro quietly) (simp_all add: quiet_pieces)
  next
    case CloseDone
    then show ?thesis by (intro quietly) (simp_all add: quiet_pieces)
  qed
qed

lemma consistent_fresh: "consistent (fresh cfg)"
  by (simp add: consistent_def fresh_def constructor_def)

lemma consistent_run:
  "consistent w \<Longrightarrow> disciplined calls w \<Longrightarrow> consistent (run calls w)"
proof (induction calls arbitrary: w)
  case Nil
  then show ?case by simp
next
  case (Cons call calls)
  then show ?case by (simp add: consistent_step)
qed

lemma disciplined_take:
  "disciplined calls w \<Longrightarrow> disciplined (take n calls) w"
proof (induction calls arbitrary: w n)
  case Nil
  then show ?case by simp
next
  case (Cons call calls)
  then show ?case by (cases n) simp_all
qed

lemma consistent_exclusive:
  assumes "consistent w"
  shows "exclusive w"
proof -
  have "inUse conn \<or> holders w (client conn) = []" if "conn \<in> set (connections (pool w))" for conn
  proof (cases "inUse conn")
    case True
    then show ?thesis by simp
  next
    case False
    with assms that have "client conn \<notin> snd ` set (held w)"
      unfolding consistent_def by blast
    then have "filter (\<lambda>h. snd h = client conn) (held w) = []"
      unfolding filter_empty_conv by force
    then show ?thesis by (simp add: holders_def)
  qed
  moreover have "distinct (map snd (held w))" using assms unfolding consistent_def by blast
  ultimately show ?thesis unfolding exclusive_def list_all_iff by blast
qed


section \<open>Ownership of handles\<close>

text \<open>
  C1, as the code has it. The pool looks a released client up by identity and keeps no
  record of its holder, so exclusive ownership rests on one rule for the callers: no
  caller releases a handle that is in another caller's hands. In every sequence of steps
  of the pool (the calls initialize, acquire, release, idle cleanup, resize and close,
  whole or suspended at their awaits and resumed in any order, and the expiry of timers)
  in which every \<open>release\<close> is by the holder of the handle, or of a handle that nobody
  holds, or of a handle the pool does not track, at every moment no handle is in the hands
  of two callers and the client of every idle record is in nobody's hands. (\<open>execute\<close> is
  an \<open>acquire\<close> and a \<open>release\<close> by the same caller.)
\<close>

theorem disciplined_callers_hold_exclusively:
  assumes "disciplined calls (fresh cfg)"
  shows "exclusive (run (take n calls) (fresh cfg))"
  by (intro consistent_exclusive consistent_run consistent_fresh disciplined_take assms)

text \<open>
  The theorem at a sequence where \<open>initialize\<close> runs in pieces, the second caller waits and
  is handed the client, the first caller releases a handle of no pool, and the second
  caller releases twice.
\<close>

theorem disciplined_callers_hold_exclusively_witness:
  "disciplined
      [Connected 0 True, InitializeDone, Acquire 1 1, Acquire 2 2, Release 1 3 0,
       Release 1 4 7, Release 2 5 0, Release 2 6 0, Disconnected 0 True]
      (fresh (example 1))
   \<and> held (run (take 6
      [Connected 0 True, InitializeDone, Acquire 1 1, Acquire 2 2, Release 1 3 0,
       Release 1 4 7, Release 2 5 0, Release 2 6 0, Disconnected 0 True])
      (fresh (example 1))) = [(2, 0)]
   \<and> exclusive (run (take 6
      [Connected 0 True, InitializeDone, Acquire 1 1, Acquire 2 2, Release 1 3 0,
       Release 1 4 7, Release 2 5 0, Release 2 6 0, Disconnected 0 True])
      (fresh (example 1)))"
proof -
  have d: "disciplined
      [Connected 0 True, InitializeDone, Acquire 1 1, Acquire 2 2, Release 1 3 0,
       Release 1 4 7, Release 2 5 0, Release 2 6 0, Disconnected 0 True]
      (fresh (example 1))"
    by code_simp
  have h: "held (run (take 6
      [Connected 0 True, InitializeDone, Acquire 1 1, Acquire 2 2, Release 1 3 0,
       Release 1 4 7, Release 2 5 0, Release 2 6 0, Disconnected 0 True])
      (fresh (example 1))) = [(2, 0)]"
    by code_simp
  have e: "exclusive (run (take 6
      [Connected 0 True, InitializeDone, Acquire 1 1, Acquire 2 2, Release 1 3 0,
       Release 1 4 7, Release 2 5 0, Release 2 6 0, Disconnected 0 True])
      (fresh (example 1)))"
    by (rule disciplined_callers_hold_exclusively [OF d])
  show ?thesis using d h e by (intro conjI)
qed

text \<open>
  C1 as stated fails: caller 1 acquires the client 0 and releases it, caller 2 acquires
  it, caller 1 releases it once more, and the pool gives it to caller 3 while caller 2
  holds it.
\<close>

theorem double_release_two_holders:
  "held (run
      [Initialize 0 (\<lambda>c. True), Acquire 1 1, Release 1 2 0, Acquire 2 3, Release 1 4 0, Acquire 3 5]
      (fresh (example 1))) = [(2, 0), (3, 0)]
   \<and> \<not> exclusive (run
      [Initialize 0 (\<lambda>c. True), Acquire 1 1, Release 1 2 0, Acquire 2 3, Release 1 4 0, Acquire 3 5]
      (fresh (example 1)))
   \<and> \<not> disciplined
      [Initialize 0 (\<lambda>c. True), Acquire 1 1, Release 1 2 0, Acquire 2 3, Release 1 4 0, Acquire 3 5]
      (fresh (example 1))"
  by code_simp

text \<open>
  Suspended calls in between: \<open>resize(0)\<close> chooses the idle record of the client 0 and awaits
  its \<open>$disconnect()\<close>; caller 1 acquires the client; the removal then takes the record out
  of the pool. Caller 1 still holds the client, alone.
\<close>

lemma acquire_during_removal:
  "held (run [Initialize 0 (\<lambda>c. True), Acquire 1 1, Disconnected 0 True, ResizeDone 0]
      (fresh (example 1))) = [(1, 0)]
   \<and> connections (pool (run
      [Initialize 0 (\<lambda>c. True), Acquire 1 1, Disconnected 0 True, ResizeDone 0]
      (fresh (example 1)))) = []"
  by code_simp

section \<open>Timeout of a waiter\<close>

text \<open>
  The items of the queue carry the arrow functions of lines 100-107, never the
  executor's \<open>resolve\<close> that the timer looks for, so the timer finds nothing to remove.
\<close>

lemma timerFires_keeps_queue:
  assumes "list_all (\<lambda>item. \<exists>q. resolve item = WaiterResolve q) (waitQueue s)"
  shows "waitQueue (timerFires p s) = waitQueue s"
proof -
  have "\<forall>item \<in> set (waitQueue s). resolve item \<noteq> PromiseResolve p"
    using assms by (auto simp add: list_all_iff)
  then have "findIndex (\<lambda>item. resolve item = PromiseResolve p) (waitQueue s) = None"
    by (simp add: findIndex_None_iff)
  then show ?thesis
    by (simp add: timerFires_def onTimeout_def clearTimeout_def settle_def)
qed

text \<open>
  C2 on the code. The timer of the queued \<open>acquire()\<close> of \<open>oneWaiting\<close> expires: the promise
  is rejected with the timeout error, but the waiter stays in the queue; the next
  \<open>release\<close> takes it from the queue and marks the record in use for it, with no caller to
  receive the client.
\<close>

theorem timeout_leaves_waiter_queued:
  "waiting (getStatus oneWaiting) = 1
   \<and> promises (timerFires 0 oneWaiting) 0 = Rejected PoolTimeout
   \<and> waiting (getStatus (timerFires 0 oneWaiting)) = 1
   \<and> waitQueue (timerFires 0 oneWaiting) =
        [\<lparr>resolve = WaiterResolve 0, reject = WaiterReject 0, timestamp = 2\<rparr>]
   \<and> waitQueue (release 3 0 (timerFires 0 oneWaiting)) = []
   \<and> connections (release 3 0 (timerFires 0 oneWaiting)) =
        [\<lparr>client = 0, inUse = True, lastUsed = 3, createdAt = 0\<rparr>]
   \<and> promises (release 3 0 (timerFires 0 oneWaiting)) 0 = Rejected PoolTimeout"
  by code_simp

section \<open>Hand-off on release\<close>

text \<open>
  What \<open>release\<close> does for a waiter that still awaits its promise: when the client is one
  of the pool, the queue is not empty and its oldest waiter, queued by \<open>acquire()\<close>, is
  pending, that waiter's promise is fulfilled with the released client and its timer
  cleared, no other promise changes, the waiter leaves the queue and the others keep
  their order, the record of the client is in use afterwards, and the numbers of
  connections and of active connections do not decrease; an \<open>acquire()\<close> that has to wait
  joins the queue behind every waiter already there.
\<close>

lemma release_hands_off_pending_head:
  assumes found: "findIndex (\<lambda>conn. client conn = c) (connections s) = Some i"
    and queue: "waitQueue s = w # rest"
    and w: "resolve w = WaiterResolve p"
    and pending: "promises s p = Pending"
  shows "promises (release now c s) p = Fulfilled c
    \<and> (\<forall>q. q \<noteq> p \<longrightarrow> promises (release now c s) q = promises s q)
    \<and> p \<notin> set (timers (release now c s))
    \<and> waitQueue (release now c s) = rest
    \<and> client (connections (release now c s) ! i) = c
    \<and> inUse (connections (release now c s) ! i)
    \<and> total_s (getStatus (release now c s)) = total_s (getStatus s)
    \<and> active (getStatus s) \<le> active (getStatus (release now c s))
    \<and> (\<forall>now' q s1. acquire now' s = (Queued q, s1) \<longrightarrow>
          waitQueue s1 = w # rest @
            [\<lparr>resolve = WaiterResolve q, reject = WaiterReject q, timestamp = now'\<rparr>])"
proof -
  let ?r = "(connections s ! i)\<lparr>lastUsed := now, inUse := True\<rparr>"
  have i: "i < length (connections s)" and ci: "client (connections s ! i) = c"
    using findIndex_SomeD [OF found] by simp_all
  have eq: "release now c s =
      settle p (Fulfilled c) (clearTimeout p (s\<lparr>waitQueue := rest,
          connections := (connections s)[i := ?r]\<rparr>))"
    by (simp add: release_handoff [OF found queue] w)
  have conns: "connections (release now c s) = (connections s)[i := ?r]"
    by (simp add: eq settle_def clearTimeout_def)
  have "length (filter inUse ((connections s)[i := ?r])) + (if inUse (connections s ! i) then 1 else 0)
      = length (filter inUse (connections s)) + (if inUse ?r then 1 else 0)"
    using i by (rule count_update)
  then have act: "active (getStatus s) \<le> active (getStatus (release now c s))"
    by (simp add: getStatus_def conns split: if_splits)
  have fifo: "\<forall>now' q s1. acquire now' s = (Queued q, s1) \<longrightarrow>
          waitQueue s1 = w # rest @
            [\<lparr>resolve = WaiterResolve q, reject = WaiterReject q, timestamp = now'\<rparr>]"
    by (auto simp add: acquire_def queue Let_def split: option.splits)
  show ?thesis
    using i ci act fifo
    by (simp add: eq settle_def clearTimeout_def pending getStatus_def)
qed

text \<open>
  C3 on the code. In \<open>firstTimedOut\<close> the client 0 is checked out and two waiters are
  queued; the timer of the first has expired and, as its callback removes nothing, the
  waiter is still in the queue. \<open>release\<close> of the client 0 takes that waiter from the queue: no promise is
  fulfilled, the second waiter, the oldest that still waits, stays pending, and the record
  stays in use while no caller holds the client.
\<close>

theorem release_serves_timed_out_waiter:
  "waiting (getStatus firstTimedOut) = 2
   \<and> promises firstTimedOut 0 = Rejected PoolTimeout
   \<and> promises firstTimedOut 1 = Pending
   \<and> promises (release 5 0 firstTimedOut) 0 = Rejected PoolTimeout
   \<and> promises (release 5 0 firstTimedOut) 1 = Pending
   \<and> waitQueue (release 5 0 firstTimedOut) =
        [\<lparr>resolve = WaiterResolve 1, reject = WaiterReject 1, timestamp = 3\<rparr>]
   \<and> connections (release 5 0 firstTimedOut) =
        [\<lparr>client = 0, inUse = True, lastUsed = 5, createdAt = 0\<rparr>]
   \<and> active (getStatus (release 5 0 firstTimedOut)) = 1
   \<and> held (run [Initialize 0 (\<lambda>c. True), Acquire 1 1, Acquire 2 2, Acquire 3 3, TimerFires 0,
                 Release 1 5 0] (fresh (example 1))) = []"
  by code_simp

section \<open>Idle cleanup\<close>

text \<open>
  C4 on the code. In \<open>started 2\<close> both connections are idle since time 0 and the floor is
  \<open>2 div 2 = 1\<close>. At time 100000 both have been idle for longer than the idle timeout of
  60000; the callback tests the length 2 against the floor for each of them before any
  removal has taken place, starts both removals, and the pass ends with no connection.
\<close>

theorem idle_cleanup_goes_below_floor:
  "total_s (getStatus (started 2)) = 2
   \<and> idle (getStatus (started 2)) = 2
   \<and> size_c (config (started 2)) div 2 = 1
   \<and> cleanupTick 100000 (started 2) = [0, 1]
   \<and> total_s (getStatus (idleCleanup (\<lambda>c. True) 100000 (started 2))) = 0"
  by code_simp

section \<open>resize\<close>

text \<open>
  C5 on the code. \<open>started 2\<close> holds two idle connections and none in use. \<open>resize(0)\<close> removes
  the first record while it iterates over the array, the second record moves to the index
  already visited, and the loop ends: one connection is left.
\<close>

theorem resize_zero_leaves_one:
  "idle (getStatus (started 2)) = 2
   \<and> active (getStatus (started 2)) = 0
   \<and> fst (resize (\<lambda>c. True) (\<lambda>c. True) 5 0 (started 2)) = None
   \<and> total_s (getStatus (snd (resize (\<lambda>c. True) (\<lambda>c. True) 5 0 (started 2)))) = 1
   \<and> size_c (config (snd (resize (\<lambda>c. True) (\<lambda>c. True) 5 0 (started 2)))) = 0"
  by code_simp

section \<open>close\<close>

text \<open>
  C6 on the code. \<open>close()\<close> of \<open>oneWaiting\<close> with a client whose \<open>$disconnect()\<close> fails: the
  waiter is rejected and the queue emptied, then the failure leaves \<open>close()\<close> as an
  exception, and the pool keeps its connection and stays initialized.
\<close>

theorem close_propagates_disconnect_failure:
  "fst (close (\<lambda>c. False) oneWaiting) = Some DisconnectFailed
   \<and> promises (snd (close (\<lambda>c. False) oneWaiting)) 0 = Rejected PoolClosing
   \<and> waitQueue (snd (close (\<lambda>c. False) oneWaiting)) = []
   \<and> total_s (getStatus (snd (close (\<lambda>c. False) oneWaiting))) = 1
   \<and> isInitialized (snd (close (\<lambda>c. False) oneWaiting))"
  by code_simp

section \<open>healthCheck\<close>




section \<open>Releasing twice\<close>

text \<open>
  C8, as the code has it. \<open>release\<close> has no error result. On a client that the pool does
  not track (never issued, or its record removed) it logs the warning and changes nothing
  else, so \<open>getStatus()\<close> is unchanged. On a client whose record is idle while nobody
  waits (released and not handed out since) it logs nothing and leaves \<open>getStatus()\<close>
  unchanged.
\<close>

theorem release_untracked_or_idle:
  "(findIndex (\<lambda>conn. client conn = c) (connections s) = None \<longrightarrow>
      release now c s = say (Warn ''Attempted to release unknown connection'') s
      \<and> getStatus (release now c s) = getStatus s)
   \<and> (\<forall>i. findIndex (\<lambda>conn. client conn = c) (connections s) = Some i
          \<and> \<not> inUse (connections s ! i) \<and> waitQueue s = [] \<longrightarrow>
        getStatus (release now c s) = getStatus s
        \<and> consoleOut (release now c s) = consoleOut s)"
proof (intro conjI impI allI)
  assume n: "findIndex (\<lambda>conn. client conn = c) (connections s) = None"
  show "release now c s = say (Warn ''Attempted to release unknown connection'') s"
    by (rule release_unknown [OF n])
  show "getStatus (release now c s) = getStatus s"
    by (simp add: release_unknown [OF n] say_def getStatus_def)
next
  fix i
  assume a: "findIndex (\<lambda>conn. client conn = c) (connections s) = Some i
          \<and> \<not> inUse (connections s ! i) \<and> waitQueue s = []"
  let ?r = "(connections s ! i)\<lparr>inUse := False, lastUsed := now\<rparr>"
  from a have found: "findIndex (\<lambda>conn. client conn = c) (connections s) = Some i"
    and idle: "\<not> inUse (connections s ! i)" and queue: "waitQueue s = []" by simp_all
  have i: "i < length (connections s)" using findIndex_SomeD [OF found] by simp
  have eq: "release now c s = s\<lparr>connections := (connections s)[i := ?r]\<rparr>"
    by (rule release_idle [OF found queue])
  have "length (filter inUse ((connections s)[i := ?r])) + (if inUse (connections s ! i) then 1 else 0)
      = length (filter inUse (connections s)) + (if inUse ?r then 1 else 0)"
    using i by (rule count_update)
  moreover have "length (filter (\<lambda>conn. \<not> inUse conn) ((connections s)[i := ?r]))
        + (if \<not> inUse (connections s ! i) then 1 else 0)
      = length (filter (\<lambda>conn. \<not> inUse conn) (connections s)) + (if \<not> inUse ?r then 1 else 0)"
    using i by (rule count_update)
  ultimately show "getStatus (release now c s) = getStatus s"
    using idle by (simp add: eq getStatus_def)
  show "consoleOut (release now c s) = consoleOut s"
    by (simp add: eq)
qed

text \<open>The theorem at \<open>started 1\<close>: the unknown client 7, and the idle client 0.\<close>

theorem release_untracked_or_idle_witness:
  "findIndex (\<lambda>conn. client conn = 7) (connections (started 1)) = None
   \<and> release 5 7 (started 1) = say (Warn ''Attempted to release unknown connection'') (started 1)
   \<and> getStatus (release 5 7 (started 1)) = getStatus (started 1)
   \<and> findIndex (\<lambda>conn. client conn = 0) (connections (started 1)) = Some 0
   \<and> getStatus (release 5 0 (started 1)) = getStatus (started 1)
   \<and> consoleOut (release 5 0 (started 1)) = consoleOut (started 1)"
proof -
  have h: "findIndex (\<lambda>conn. client conn = 7) (connections (started 1)) = None"
    by code_simp
  have k: "findIndex (\<lambda>conn. client conn = 0) (connections (started 1)) = Some 0"
    "\<not> inUse (connections (started 1) ! 0)" "waitQueue (started 1) = []"
    by code_simp+
  have "release 5 7 (started 1) = say (Warn ''Attempted to release unknown connection'') (started 1)
      \<and> getStatus (release 5 7 (started 1)) = getStatus (started 1)"
    using release_untracked_or_idle [of 7 "started 1" 5] h by blast
  moreover have "getStatus (release 5 0 (started 1)) = getStatus (started 1)
      \<and> consoleOut (release 5 0 (started 1)) = consoleOut (started 1)"
    using release_untracked_or_idle [of 0 "started 1" 5] k by blast
  ultimately show ?thesis using h k(1) by blast
qed

text \<open>
  C8 as stated fails: in \<open>handedOver\<close> the first holder has released the client 0 and the
  pool has passed it to the waiter. The first holder releases it again: no warning is
  logged, and the connection that the waiter holds is counted idle.
\<close>

theorem second_release_changes_status:
  "getStatus handedOver = \<lparr>total_s = 1, active = 1, idle = 0, waiting = 0\<rparr>
   \<and> getStatus (release 4 0 handedOver) = \<lparr>total_s = 1, active = 0, idle = 1, waiting = 0\<rparr>
   \<and> consoleOut (release 4 0 handedOver) = consoleOut handedOver"
  by code_simp

section \<open>execute\<close>



section \<open>Construction\<close>

text \<open>
  C10. The constructor replaces a falsy \<open>timeout\<close> (\<open>undefined\<close>, \<open>0\<close>, \<open>NaN\<close>) by 30000 and
  a falsy \<open>idleTimeout\<close> by 60000 and keeps every other value, so a configured \<open>0\<close> is
  overridden by the default for either field: no configuration gives a pool whose
  timeout or idle timeout is zero.
\<close>

theorem constructor_falsy_timeouts:
  "timeout (getConfig (constructor cfg)) =
     (if truthy (timeout cfg) then timeout cfg else Some (Num 30000))
   \<and> idleTimeout (getConfig (constructor cfg)) =
     (if truthy (idleTimeout cfg) then idleTimeout cfg else Some (Num 60000))
   \<and> timeout (getConfig (constructor (cfg\<lparr>timeout := Some (Num 0)\<rparr>))) = Some (Num 30000)
   \<and> idleTimeout (getConfig (constructor (cfg\<lparr>idleTimeout := Some (Num 0)\<rparr>))) = Some (Num 60000)
   \<and> timeout (getConfig (constructor cfg)) \<noteq> Some (Num 0)
   \<and> idleTimeout (getConfig (constructor cfg)) \<noteq> Some (Num 0)"
  by (cases "timeout cfg" rule: truthy.cases; cases "idleTimeout cfg" rule: truthy.cases)
     (simp_all add: constructor_def getConfig_def orDefault_def)

end
